theory Spec2Isabelle
  imports Complex_Main "HOL-Library.Multiset"
begin

section \<open>The TED-talks keyword-labelling notebook: locally written helpers\<close>

text \<open>
  The notebook works on NumPy arrays of floating-point numbers. The embedding reads every
  number as a real: sums, products and quotients are exact, the constant \<open>0.00000001\<close> is
  \<open>1 / 10 ^ 8\<close> and \<open>np.log2\<close> is the real logarithm to base 2. Python exceptions are
  values of \<open>py_error\<close>; a NumPy division by zero, which raises nothing and yields
  \<open>inf\<close> or \<open>nan\<close>, is the value \<open>NonFinite\<close>.

  Rounding, overflow and underflow of float64 are not part of the embedding. The properties
  below are therefore kept to what float64 arithmetic shares with the reals: which
  exception is raised, equality of two values computed by the same operations, comparisons,
  counts and sums of labels that are 0 or 1 (small integers, exact in float64), bounds that
  rounding to nearest keeps (a sum of nonnegative terms does not decrease, a quotient of
  \<open>a \<le> b\<close> is at most 1), and the two decimals of the printed report.
\<close>

subsection \<open>Exceptions and non-finite numbers\<close>

datatype py_error = IndexError | ZeroDivisionError | ImportError | OSError

datatype npfloat = Fin real | NonFinite

text \<open>\<open>a / b\<close> on NumPy scalars: a zero denominator yields \<open>inf\<close> or \<open>nan\<close>.\<close>

definition np_div :: "real \<Rightarrow> real \<Rightarrow> npfloat" where
  "np_div a b = (if b = 0 then NonFinite else Fin (a / b))"

text \<open>\<open>a + b\<close>: a sum with \<open>inf\<close> or \<open>nan\<close> is \<open>inf\<close> or \<open>nan\<close>.\<close>

fun np_add :: "npfloat \<Rightarrow> npfloat \<Rightarrow> npfloat" where
  "np_add (Fin a) (Fin b) = Fin (a + b)"
| "np_add _ _ = NonFinite"

text \<open>\<open>a /= n\<close> for a non-zero count \<open>n\<close>: \<open>inf\<close> and \<open>nan\<close> stay what they are.\<close>

fun np_div_count :: "npfloat \<Rightarrow> nat \<Rightarrow> npfloat" where
  "np_div_count (Fin a) n = Fin (a / real n)"
| "np_div_count NonFinite n = NonFinite"

subsection \<open>The TensorBoard set-up cell\<close>

text \<open>
  \<^verbatim>\<open>
  try:
      import tensorboardX
      ...
      os.makedirs(logdir)
      log = tensorboardX.SummaryWriter(logdir)
  except ImportError as e:
      log = None
  \<close>
  The argument is the outcome of the \<open>try\<close> block: the writer it built, or the exception
  one of its calls raised. The result is the value of \<open>log\<close> after the cell, or the
  exception that leaves the cell.
\<close>

definition tensorboard_log :: "py_error + 'w \<Rightarrow> py_error + 'w option" where
  "tensorboard_log body =
     (case body of
        Inr w \<Rightarrow> Inr (Some w)
      | Inl e \<Rightarrow> (if e = ImportError then Inr None else Inl e))"

subsection \<open>Label vectors\<close>

definition NLABELS :: nat where
  "NLABELS = 100"

text \<open>
  \<^verbatim>\<open>
  def indices_to_labels(x):
      labels = np.zeros(NLABELS)
      for i in x:
          if i < NLABELS:
              labels[i] = 1
      return labels
  \<close>
  The indices come from \<open>list.index\<close> in \<open>tags_to_indices\<close>, so they are natural numbers.
\<close>

text \<open>
  The write \<open>labels[i] = 1\<close> on an array: an index that is not below its length raises
  \<open>IndexError\<close>.
\<close>

definition set_label :: "real list \<Rightarrow> nat \<Rightarrow> py_error + real list" where
  "set_label labels i =
     (if i < length labels then Inr (labels[i := 1]) else Inl IndexError)"

text \<open>The loop \<open>for i in x\<close>, from the array \<open>labels\<close>.\<close>

fun labels_loop :: "real list \<Rightarrow> nat list \<Rightarrow> py_error + real list" where
  "labels_loop labels [] = Inr labels"
| "labels_loop labels (i # x) =
     (if i < NLABELS then
        (case set_label labels i of
           Inl e \<Rightarrow> Inl e
         | Inr labels' \<Rightarrow> labels_loop labels' x)
      else labels_loop labels x)"

definition indices_to_labels :: "nat list \<Rightarrow> py_error + real list" where
  "indices_to_labels x = labels_loop (replicate NLABELS 0) x"

subsection \<open>The training and validation split\<close>

definition VALIDATION_SPLIT :: real where
  "VALIDATION_SPLIT = 2 / 10"

text \<open>\<open>int(x)\<close> truncates towards zero.\<close>

definition py_int :: "real \<Rightarrow> int" where
  "py_int x = (if 0 \<le> x then \<lfloor>x\<rfloor> else \<lceil>x\<rceil>)"

text \<open>\<open>num_validation_samples = int(VALIDATION_SPLIT * data.shape[0])\<close>\<close>

definition num_validation_samples :: "nat \<Rightarrow> int" where
  "num_validation_samples n = py_int (VALIDATION_SPLIT * real n)"

text \<open>
  The slices \<open>xs[:stop]\<close> and \<open>xs[start:]\<close> along the first axis: a negative bound counts
  from the end and is clamped at the start of the array, a bound beyond the end is the end.
\<close>

definition slice_bound :: "'a list \<Rightarrow> int \<Rightarrow> nat" where
  "slice_bound xs b = nat (if b < 0 then max (b + int (length xs)) 0 else b)"

definition slice_to :: "'a list \<Rightarrow> int \<Rightarrow> 'a list" where
  "slice_to xs stop = take (slice_bound xs stop) xs"

definition slice_from :: "'a list \<Rightarrow> int \<Rightarrow> 'a list" where
  "slice_from xs start = drop (slice_bound xs start) xs"

text \<open>
  \<^verbatim>\<open>
  x_train = data[:-num_validation_samples]
  x_val = data[-num_validation_samples:]
  \<close>
  on the shuffled rows \<open>data\<close> (the labels are split by the same two slices).
\<close>

definition x_train :: "'a list \<Rightarrow> 'a list" where
  "x_train data = slice_to data (- num_validation_samples (length data))"

definition x_val :: "'a list \<Rightarrow> 'a list" where
  "x_val data = slice_from data (- num_validation_samples (length data))"

subsection \<open>Ranking metrics\<close>

text \<open>
  \<^verbatim>\<open>
  def dcg_at_k(vals, k):
      res = 0
      for i in range(k):
          res += vals[i][1] / np.log2(i + 2)
      return res
  \<close>
  \<open>dcg_upto vals n\<close> is \<open>res\<close> after the iterations \<open>i = 0, ..., n - 1\<close>; reading
  \<open>vals[i]\<close> beyond the end raises \<open>IndexError\<close>. \<open>range(k)\<close> is empty for \<open>k \<le> 0\<close>.
\<close>

primrec dcg_upto :: "(real \<times> real) list \<Rightarrow> nat \<Rightarrow> py_error + real" where
  "dcg_upto vals 0 = Inr 0"
| "dcg_upto vals (Suc i) =
     (case dcg_upto vals i of
        Inl e \<Rightarrow> Inl e
      | Inr res \<Rightarrow>
          if i < length vals then Inr (res + snd (vals ! i) / log 2 (real (i + 2)))
          else Inl IndexError)"

definition dcg_at_k :: "(real \<times> real) list \<Rightarrow> int \<Rightarrow> py_error + real" where
  "dcg_at_k vals k = dcg_upto vals (nat k)"

text \<open>
  \<open>sorted(z, reverse=True, key=...)\<close>: decreasing in the key, and stable (elements with
  equal keys keep their order, also with \<open>reverse=True\<close>).
\<close>

definition sorted_reverse :: "('a \<Rightarrow> real) \<Rightarrow> 'a list \<Rightarrow> 'a list" where
  "sorted_reverse key xs = sort_key (\<lambda>x. - key x) xs"

text \<open>
  \<^verbatim>\<open>
  truesum = 0
  for i in range(k):
      truesum += sorted_z[i][1]
  \<close>
\<close>

primrec truesum_upto :: "(real \<times> real) list \<Rightarrow> nat \<Rightarrow> py_error + real" where
  "truesum_upto sorted_z 0 = Inr 0"
| "truesum_upto sorted_z (Suc i) =
     (case truesum_upto sorted_z i of
        Inl e \<Rightarrow> Inl e
      | Inr truesum \<Rightarrow>
          if i < length sorted_z then Inr (truesum + snd (sorted_z ! i))
          else Inl IndexError)"

text \<open>The values one sample contributes: \<open>truesum\<close>, \<open>pr\<close>, \<open>rc\<close> and \<open>cg\<close>.\<close>

record sample =
  s_truesum :: real
  s_pr :: real
  s_rc :: npfloat
  s_cg :: npfloat

text \<open>
  The body of the loop over the samples, up to the accumulation. \<open>true0\<close> is
  \<open>truevals[0]\<close>, \<open>pred\<close> is \<open>predvals[j]\<close> and \<open>true\<close> is \<open>truevals[j]\<close>.
  \<^verbatim>\<open>
  z = list(zip(predvals[j], truevals[j]))
  sorted_z = sorted(z, reverse=True, key=lambda tup: tup[0])
  opt_z = sorted(z, reverse=True, key=lambda tup: tup[1])
  truesum = 0
  for i in range(k):
      truesum += sorted_z[i][1]
  pr = truesum / k
  rc = truesum / np.sum(truevals[0])
  ...
  cg = dcg_at_k(sorted_z, k) / (dcg_at_k(opt_z, k) + 0.00000001)
  \<close>
  For \<open>k = 0\<close> the quotient \<open>truesum / k\<close> is \<open>0 / 0\<close> on Python integers, which raises
  \<open>ZeroDivisionError\<close>; the other quotients are on NumPy scalars. The accumulators are
  local to \<open>scores_at_k\<close> and lost when it raises, so the four values of the sample are
  computed first and accumulated afterwards (\<open>accumulate\<close>).
\<close>

definition sample_at_k :: "real list \<Rightarrow> real list \<Rightarrow> real list \<Rightarrow> int \<Rightarrow> py_error + sample" where
  "sample_at_k true0 pred true k =
     (let z = zip pred true;
          sorted_z = sorted_reverse fst z;
          opt_z = sorted_reverse snd z
      in case truesum_upto sorted_z (nat k) of
           Inl e \<Rightarrow> Inl e
         | Inr truesum \<Rightarrow>
             if k = 0 then Inl ZeroDivisionError
             else
               (case dcg_at_k sorted_z k of
                  Inl e \<Rightarrow> Inl e
                | Inr dcg \<Rightarrow>
                    (case dcg_at_k opt_z k of
                       Inl e \<Rightarrow> Inl e
                     | Inr idcg \<Rightarrow>
                         Inr \<lparr>s_truesum = truesum,
                              s_pr = truesum / real_of_int k,
                              s_rc = np_div truesum (sum_list true0),
                              s_cg = np_div dcg (idcg + 1 / 10 ^ 8)\<rparr>)))"

text \<open>
  The term \<open>2*((pr*rc)/(pr+rc))\<close>. It is evaluated only when \<open>truesum > 0\<close>; there a
  non-finite \<open>rc\<close> is \<open>inf\<close> and \<open>pr\<close> is positive, so the quotient is \<open>inf / inf\<close>.
\<close>

definition f1_term :: "real \<Rightarrow> npfloat \<Rightarrow> npfloat" where
  "f1_term pr rc =
     (case rc of
        NonFinite \<Rightarrow> NonFinite
      | Fin r \<Rightarrow>
          (case np_div (pr * r) (pr + r) of
             NonFinite \<Rightarrow> NonFinite
           | Fin q \<Rightarrow> Fin (2 * q)))"

record scores =
  precision_at_k :: real
  recall_at_k :: npfloat
  f1score_at_k :: npfloat
  ndcg_at_k :: npfloat

text \<open>
  \<^verbatim>\<open>
  if truesum>0:
      f1score_at_k += 2*((pr*rc)/(pr+rc))
  precision_at_k += pr
  recall_at_k += rc
  ...
  ndcg_at_k += cg
  \<close>
\<close>

definition accumulate :: "scores \<Rightarrow> sample \<Rightarrow> scores" where
  "accumulate acc s =
     \<lparr>precision_at_k = precision_at_k acc + s_pr s,
      recall_at_k = np_add (recall_at_k acc) (s_rc s),
      f1score_at_k =
        (if s_truesum s > 0 then np_add (f1score_at_k acc) (f1_term (s_pr s) (s_rc s))
         else f1score_at_k acc),
      ndcg_at_k = np_add (ndcg_at_k acc) (s_cg s)\<rparr>"

text \<open>
  \<open>scores_upto truevals predvals k n\<close> is the four accumulators after the iterations
  \<open>j = 0, ..., n - 1\<close> of \<open>for j in range(len(truevals))\<close>; \<open>predvals[j]\<close> beyond the end
  raises \<open>IndexError\<close>.
\<close>

primrec scores_upto :: "real list list \<Rightarrow> real list list \<Rightarrow> int \<Rightarrow> nat \<Rightarrow> py_error + scores" where
  "scores_upto truevals predvals k 0 =
     Inr \<lparr>precision_at_k = 0, recall_at_k = Fin 0, f1score_at_k = Fin 0, ndcg_at_k = Fin 0\<rparr>"
| "scores_upto truevals predvals k (Suc j) =
     (case scores_upto truevals predvals k j of
        Inl e \<Rightarrow> Inl e
      | Inr acc \<Rightarrow>
          if length predvals \<le> j then Inl IndexError
          else
            (case sample_at_k (truevals ! 0) (predvals ! j) (truevals ! j) k of
               Inl e \<Rightarrow> Inl e
             | Inr s \<Rightarrow> Inr (accumulate acc s)))"

text \<open>
  \<^verbatim>\<open>
  precision_at_k /= len(truevals)
  recall_at_k /= len(truevals)
  f1score_at_k /= len(truevals)
  ndcg_at_k /= len(truevals)
  \<close>
  With no sample the accumulators are still the Python integer 0, and \<open>0 / 0\<close> raises
  \<open>ZeroDivisionError\<close>. The result is the four values that \<open>scores_at_k\<close> prints.
\<close>

definition scores_at_k :: "real list list \<Rightarrow> real list list \<Rightarrow> int \<Rightarrow> py_error + scores" where
  "scores_at_k truevals predvals k =
     (case scores_upto truevals predvals k (length truevals) of
        Inl e \<Rightarrow> Inl e
      | Inr acc \<Rightarrow>
          if length truevals = 0 then Inl ZeroDivisionError
          else
            Inr \<lparr>precision_at_k = precision_at_k acc / real (length truevals),
                 recall_at_k = np_div_count (recall_at_k acc) (length truevals),
                 f1score_at_k = np_div_count (f1score_at_k acc) (length truevals),
                 ndcg_at_k = np_div_count (ndcg_at_k acc) (length truevals)\<rparr>)"

subsection \<open>The printed report\<close>

text \<open>
  After the four divisions \<open>scores_at_k\<close> prints four lines with \<open>str.format\<close>, one for
  each of \<open>precision_at_k\<close>, \<open>recall_at_k\<close>, \<open>f1score_at_k\<close> and \<open>ndcg_at_k\<close>. A line is
  the name of the metric (\<open>Precision\<close>, \<open>Recall\<close>, \<open>F1\<close>, \<open>NDCG\<close>), the character \<open>@\<close>,
  the field 0, blanks that align the lines, a colon between two blanks, and the field
  \<open>1:.2f\<close>. Field 0 is the decimal numeral of the integer \<open>k\<close>. Field \<open>1:.2f\<close> is the value
  rounded to two decimals, to the nearest hundredth and to the even one of two equally
  near, with the sign of the value; \<open>inf\<close> and \<open>nan\<close> print as \<open>inf\<close>, \<open>-inf\<close> or \<open>nan\<close>,
  which the embedding does not tell apart: their text is \<open>None\<close>.
\<close>

definition digit :: "nat \<Rightarrow> char" where
  "digit d = ''0123456789'' ! d"

fun show_nat :: "nat \<Rightarrow> string" where
  "show_nat n = (if n < 10 then [digit n] else show_nat (n div 10) @ [digit (n mod 10)])"

declare show_nat.simps [simp del]

definition show_int :: "int \<Rightarrow> string" where
  "show_int i = (if i < 0 then ''-'' @ show_nat (nat (- i)) else show_nat (nat i))"

definition round_half_even :: "real \<Rightarrow> int" where
  "round_half_even x =
     (let f = \<lfloor>x\<rfloor>; d = x - real_of_int f
      in if d < 1 / 2 then f
         else if 1 / 2 < d then f + 1
         else if even f then f else f + 1)"

definition format_2f :: "real \<Rightarrow> string" where
  "format_2f x =
     (let h = nat \<bar>round_half_even (100 * x)\<bar>
      in (if x < 0 then ''-'' else []) @ show_nat (h div 100) @ ''.'' @
         [digit (h mod 100 div 10), digit (h mod 10)])"

definition format_2f_np :: "npfloat \<Rightarrow> string option" where
  "format_2f_np x = (case x of Fin a \<Rightarrow> Some (format_2f a) | NonFinite \<Rightarrow> None)"

definition report_line :: "string \<Rightarrow> int \<Rightarrow> string option \<Rightarrow> string option" where
  "report_line name k v = map_option (\<lambda>t. name @ show_int k @ t) v"

text \<open>The four lines that \<open>scores_at_k\<close> prints, or the exception it raises before.\<close>

definition scores_at_k_printed ::
  "real list list \<Rightarrow> real list list \<Rightarrow> int \<Rightarrow> py_error + string option list" where
  "scores_at_k_printed truevals predvals k =
     (case scores_at_k truevals predvals k of
        Inl e \<Rightarrow> Inl e
      | Inr r \<Rightarrow>
          Inr [report_line ''Precision@'' k (Some ('' : '' @ format_2f (precision_at_k r))),
               report_line ''Recall@'' k (map_option ((@) ''    : '') (format_2f_np (recall_at_k r))),
               report_line ''F1@'' k (map_option ((@) ''        : '') (format_2f_np (f1score_at_k r))),
               report_line ''NDCG@'' k (map_option ((@) ''      : '') (format_2f_np (ndcg_at_k r)))])"

subsection \<open>Rankings\<close>

text \<open>
  A ground-truth vector is binary when each of its labels is 0 or 1. A prediction ranks
  such a vector perfectly when every positive label has a strictly higher score than every
  negative label.
\<close>

definition binary :: "real list \<Rightarrow> bool" where
  "binary true \<longleftrightarrow> set true \<subseteq> {0, 1}"

definition perfectly_ranked :: "real list \<Rightarrow> real list \<Rightarrow> bool" where
  "perfectly_ranked pred true \<longleftrightarrow>
     (\<forall>a < length true. \<forall>b < length true. true ! a = 1 \<and> true ! b = 0 \<longrightarrow> pred ! b < pred ! a)"

section \<open>Properties\<close>

subsection \<open>Label vectors\<close>

lemma labels_loop_returns:
  "length ls = NLABELS \<Longrightarrow>
   \<exists>labels. labels_loop ls x = Inr labels \<and> length labels = NLABELS \<and>
     (\<forall>i < NLABELS. labels ! i = (if i \<in> set x then 1 else ls ! i))"
proof (induction x arbitrary: ls)
  case Nil
  then show ?case by simp
next
  case (Cons a x)
  show ?case
  proof (cases "a < NLABELS")
    case True
    with Cons.prems have step: "set_label ls a = Inr (ls[a := 1])"
      by (simp add: set_label_def)
    from Cons.prems have "length (ls[a := 1]) = NLABELS" by simp
    from Cons.IH [OF this] obtain labels where
      l: "labels_loop (ls[a := 1]) x = Inr labels" "length labels = NLABELS"
        "\<forall>i < NLABELS. labels ! i = (if i \<in> set x then 1 else ls[a := 1] ! i)"
      by blast
    from l(3) Cons.prems have
      "\<forall>i < NLABELS. labels ! i = (if i \<in> set (a # x) then 1 else ls ! i)"
      by (auto simp: nth_list_update)
    with True step l(1,2) show ?thesis by simp
  next
    case False
    from Cons.IH [OF Cons.prems] obtain labels where
      l: "labels_loop ls x = Inr labels" "length labels = NLABELS"
        "\<forall>i < NLABELS. labels ! i = (if i \<in> set x then 1 else ls ! i)"
      by blast
    from l(3) False have
      "\<forall>i < NLABELS. labels ! i = (if i \<in> set (a # x) then 1 else ls ! i)"
      by auto
    with False l(1,2) show ?thesis by simp
  qed
qed

text \<open>
  Claim C8. For every list of natural-number tag indices, \<open>indices_to_labels\<close> raises
  nothing and returns a vector of exactly \<open>NLABELS = 100\<close> entries; entry \<open>i\<close> is 1 when
  \<open>i\<close> occurs in the list and 0 otherwise; an index that is not below \<open>NLABELS\<close> is
  ignored: no write is out of bounds, and the result is that of the list without such
  indices.
\<close>

theorem indices_to_labels_spec:
  "\<exists>labels. indices_to_labels x = Inr labels \<and>
     length labels = NLABELS \<and> NLABELS = 100 \<and>
     (\<forall>i < NLABELS. labels ! i = (if i \<in> set x then 1 else 0)) \<and>
     indices_to_labels (filter (\<lambda>i. i < NLABELS) x) = Inr labels"
proof -
  have spec: "\<exists>labels. indices_to_labels y = Inr labels \<and> length labels = NLABELS \<and>
      (\<forall>i < NLABELS. labels ! i = (if i \<in> set y then 1 else 0))" for y
  proof -
    from labels_loop_returns [of "replicate NLABELS 0" y] obtain labels where
      l: "labels_loop (replicate NLABELS 0) y = Inr labels" "length labels = NLABELS"
        "\<forall>i < NLABELS. labels ! i = (if i \<in> set y then 1 else replicate NLABELS 0 ! i)"
      by auto
    from l(3) have "\<forall>i < NLABELS. labels ! i = (if i \<in> set y then 1 else 0)"
      by auto
    with l(1,2) show ?thesis by (auto simp: indices_to_labels_def)
  qed
  from spec [of x] obtain labels where
    l: "indices_to_labels x = Inr labels" "length labels = NLABELS"
      "\<forall>i < NLABELS. labels ! i = (if i \<in> set x then 1 else 0)" by blast
  from spec [of "filter (\<lambda>i. i < NLABELS) x"] obtain labels' where
    l': "indices_to_labels (filter (\<lambda>i. i < NLABELS) x) = Inr labels'"
      "length labels' = NLABELS"
      "\<forall>i < NLABELS. labels' ! i = (if i \<in> set (filter (\<lambda>i. i < NLABELS) x) then 1 else 0)"
    by blast
  have "labels' = labels"
    by (rule nth_equalityI) (use l l' in auto)
  with l l' show ?thesis by (simp add: NLABELS_def)
qed

theorem indices_to_labels_spec_witness:
  "\<exists>labels. indices_to_labels [3, 250, 3] = Inr labels \<and> length labels = 100 \<and>
     labels ! 3 = 1 \<and> labels ! 4 = 0 \<and> indices_to_labels [3, 3] = Inr labels"
proof -
  from indices_to_labels_spec [of "[3, 250, 3]"] obtain labels where
    l: "indices_to_labels [3, 250, 3] = Inr labels" "length labels = NLABELS" "NLABELS = 100"
      "\<forall>i < NLABELS. labels ! i = (if i \<in> set [3, 250, 3] then 1 else 0)"
      "indices_to_labels (filter (\<lambda>i. i < NLABELS) [3, 250, 3]) = Inr labels"
    by blast
  from l(3,4) have "labels ! 3 = 1" "labels ! 4 = 0" by simp_all
  moreover from l(3,5) have "indices_to_labels [3, 3] = Inr labels" by simp
  ultimately show ?thesis using l(1,2,3) by simp
qed

subsection \<open>The training and validation split\<close>

lemma num_validation_samples_div: "num_validation_samples n = int (n div 5)"
proof -
  have "VALIDATION_SPLIT * real n = real n / real 5"
    by (simp add: VALIDATION_SPLIT_def)
  moreover have "\<lfloor>real n / real 5\<rfloor> = int (n div 5)"
    by (simp only: floor_divide_of_nat_eq)
  ultimately have "\<lfloor>VALIDATION_SPLIT * real n\<rfloor> = int (n div 5)"
    by (simp only:)
  moreover have "0 \<le> VALIDATION_SPLIT * real n"
    by (simp add: VALIDATION_SPLIT_def)
  ultimately show ?thesis
    by (simp add: num_validation_samples_def py_int_def)
qed

text \<open>
  Claim C10. With \<open>VALIDATION_SPLIT = 0.2\<close> and \<open>n\<close> shuffled rows: for \<open>n \<ge> 5\<close> the two
  slices are a training set of \<open>n - floor (0.2 * n)\<close> rows and a validation set of
  \<open>floor (0.2 * n)\<close> rows whose concatenation is the shuffled data; for \<open>n < 5\<close>,
  \<open>num_validation_samples\<close> is 0, the training set is empty and the validation set is the
  whole dataset.
\<close>

theorem train_val_split:
  "(5 \<le> length data \<longrightarrow>
      length (x_train data) = length data - nat \<lfloor>0.2 * real (length data)\<rfloor> \<and>
      length (x_val data) = nat \<lfloor>0.2 * real (length data)\<rfloor> \<and>
      x_train data @ x_val data = data) \<and>
   (length data < 5 \<longrightarrow>
      num_validation_samples (length data) = 0 \<and> x_train data = [] \<and> x_val data = data)"
proof -
  have fl: "nat \<lfloor>0.2 * real (length data)\<rfloor> = length data div 5"
    using num_validation_samples_div [of "length data"]
    by (simp add: num_validation_samples_def py_int_def VALIDATION_SPLIT_def)
  show ?thesis
    unfolding fl
    by (auto simp: x_train_def x_val_def slice_to_def slice_from_def slice_bound_def
        num_validation_samples_div)
qed

theorem train_val_split_witness:
  "x_train [1, 2, 3, 4, 5, 6, 7 :: nat] = [1, 2, 3, 4, 5, 6] \<and>
   x_val [1, 2, 3, 4, 5, 6, 7 :: nat] = [7] \<and>
   x_train [1, 2, 3 :: nat] = [] \<and> x_val [1, 2, 3 :: nat] = [1, 2, 3]"
  using train_val_split [of "[1, 2, 3, 4, 5, 6, 7 :: nat]"] train_val_split [of "[1, 2, 3 :: nat]"]
  by (simp add: x_train_def x_val_def slice_to_def slice_from_def slice_bound_def
        num_validation_samples_div)

subsection \<open>Discounted cumulative gain\<close>

lemma log2_pos: "0 < log 2 (real (i + 2))"
  by simp

lemma dcg_upto_eq:
  "dcg_upto vals n =
     (if n \<le> length vals then Inr (\<Sum>i<n. snd (vals ! i) / log 2 (real (i + 2)))
      else Inl IndexError)"
  by (induction n) auto

lemma dcg_upto_sum:
  "n \<le> length vals \<Longrightarrow>
   dcg_upto vals n = Inr (\<Sum>i<n. snd (vals ! i) / log 2 (real (i + 2)))"
  by (simp add: dcg_upto_eq)

text \<open>
  Claim C9. For every list \<open>vals\<close> of (score, truth) pairs whose truth components are all
  nonnegative, \<open>dcg_at_k vals 0\<close> is 0, and \<open>dcg_at_k vals k \<le> dcg_at_k vals (k + 1)\<close> for
  every \<open>k\<close> with \<open>k + 1 \<le> length vals\<close> (both calls return a value there).
\<close>

theorem dcg_at_k_monotone:
  assumes "\<forall>v \<in> set vals. 0 \<le> snd v"
  shows "dcg_at_k vals 0 = Inr 0 \<and>
    (k + 1 \<le> length vals \<longrightarrow>
      (\<exists>a b. dcg_at_k vals (int k) = Inr a \<and> dcg_at_k vals (int k + 1) = Inr b \<and> a \<le> b))"
proof -
  have "0 \<le> snd (vals ! k) / log 2 (real (k + 2))" if "k + 1 \<le> length vals"
  proof -
    from that have "vals ! k \<in> set vals" by simp
    with assms have "0 \<le> snd (vals ! k)" by blast
    then show ?thesis using log2_pos [of k] by simp
  qed
  moreover have "nat (int k + 1) = Suc k" by simp
  ultimately show ?thesis
    by (simp add: dcg_at_k_def dcg_upto_sum)
qed

theorem dcg_at_k_monotone_witness:
  "dcg_at_k [(9/10, 1), (1/2, 0)] 0 = Inr 0 \<and> dcg_at_k [(9/10, 1), (1/2, 0)] 1 = Inr 1 \<and>
   dcg_at_k [(9/10, 1), (1/2, 0)] 2 = Inr 1"
  using dcg_at_k_monotone [of "[(9/10, 1), (1/2, 0)]" 1]
  by (simp add: dcg_at_k_def numeral_2_eq_2)

subsection \<open>Evaluating the metrics on concrete inputs\<close>

lemmas eval_defs = scores_at_k_def sample_at_k_def sorted_reverse_def dcg_at_k_def np_div_def
  accumulate_def f1_term_def

lemma np_div_NonFinite_iff: "np_div a b = NonFinite \<longleftrightarrow> b = 0"
  by (simp add: np_div_def)

subsection \<open>Sorting in decreasing order\<close>

lemma length_sorted_reverse: "length (sorted_reverse key xs) = length xs"
  by (simp add: sorted_reverse_def)

lemma set_sorted_reverse: "set (sorted_reverse key xs) = set xs"
  by (simp add: sorted_reverse_def)

lemma mset_sorted_reverse: "mset (sorted_reverse key xs) = mset xs"
  by (simp add: sorted_reverse_def)

lemma sorted_reverse_desc: "sorted_wrt (\<lambda>x y. key y \<le> key x) (sorted_reverse key xs)"
proof -
  have "sorted (map (\<lambda>x. - key x) (sort_key (\<lambda>x. - key x) xs))"
    by (rule sorted_sort_key)
  then show ?thesis
    by (simp add: sorted_reverse_def sorted_map)
qed

lemma filter_sorted_reverse:
  "filter P (sorted_reverse key xs) = sorted_reverse key (filter P xs)"
  by (simp add: sorted_reverse_def filter_sort)

lemma count_snd_sorted_reverse:
  "length (filter P (map snd (sorted_reverse key z))) = length (filter P (map snd z))"
  by (simp add: filter_map filter_sorted_reverse length_sorted_reverse)

text \<open>
  A decreasing list of zeros and ones is a block of ones followed by a block of zeros.
\<close>

lemma desc_binary_shape:
  "sorted_wrt (\<lambda>x y. y \<le> x) ys \<Longrightarrow> set ys \<subseteq> {0, 1::real} \<Longrightarrow>
   ys = replicate (length (filter (\<lambda>y. y = 1) ys)) 1 @ replicate (length (filter (\<lambda>y. y = 0) ys)) 0"
proof (induction ys)
  case Nil
  then show ?case by simp
next
  case (Cons y ys)
  from Cons.prems have y: "y = 0 \<or> y = 1" by simp
  show ?case
  proof (cases "y = 1")
    case True
    with Cons show ?thesis by simp
  next
    case False
    with y have y0: "y = 0" by simp
    have all0: "\<forall>x \<in> set ys. x = 0"
    proof
      fix x assume x: "x \<in> set ys"
      with Cons.prems y0 have "x \<le> 0" by auto
      moreover from x Cons.prems have "x = 0 \<or> x = 1" by auto
      ultimately show "x = 0" by auto
    qed
    then have f1: "filter (\<lambda>y. y = 1) ys = []"
      by (auto simp: filter_empty_conv)
    from all0 have f0: "filter (\<lambda>y. y = 0) ys = ys"
      by (simp add: filter_id_conv)
    from all0 have "replicate (length ys) 0 = ys"
      by (simp add: replicate_length_same)
    with y0 f1 f0 show ?thesis by simp
  qed
qed

lemma binary_sum_list:
  "set ys \<subseteq> {0, 1::real} \<Longrightarrow> sum_list ys = real (length (filter (\<lambda>y. y = 1) ys))"
  by (induction ys) auto

lemma snd_sorted_shape:
  assumes "sorted_wrt (\<lambda>x y. snd y \<le> snd x) (sorted_reverse key z)"
    and "set (map snd z) \<subseteq> {0, 1::real}"
  shows "map snd (sorted_reverse key z) =
    replicate (length (filter (\<lambda>y. y = 1) (map snd z))) 1 @
    replicate (length (filter (\<lambda>y. y = 0) (map snd z))) 0"
proof -
  let ?ys = "map snd (sorted_reverse key z)"
  from assms(1) have "sorted_wrt (\<lambda>x y. y \<le> x) ?ys"
    by (simp add: sorted_wrt_map)
  moreover from assms(2) have "set ?ys \<subseteq> {0, 1}"
    by (simp add: set_sorted_reverse)
  ultimately have "?ys = replicate (length (filter (\<lambda>y. y = 1) ?ys)) 1 @
      replicate (length (filter (\<lambda>y. y = 0) ?ys)) 0"
    by (rule desc_binary_shape)
  then show ?thesis
    by (simp only: count_snd_sorted_reverse)
qed

lemma ideal_snd_shape:
  assumes "length pred = length true" and "binary true"
  shows "map snd (sorted_reverse snd (zip pred true)) =
    replicate (length (filter (\<lambda>y. y = 1) true)) 1 @
    replicate (length (filter (\<lambda>y. y = 0) true)) 0"
proof -
  from assms(1) have m: "map snd (zip pred true) = true" by simp
  have "sorted_wrt (\<lambda>x y. snd y \<le> snd x) (sorted_reverse snd (zip pred true))"
    by (rule sorted_reverse_desc)
  moreover from assms(2) m have "set (map snd (zip pred true)) \<subseteq> {0, 1}"
    by (simp add: binary_def)
  ultimately show ?thesis
    using snd_sorted_shape [of snd "zip pred true"] m by simp
qed

lemma perfect_snd_shape:
  assumes len: "length pred = length true" and bin: "binary true"
    and rank: "perfectly_ranked pred true"
  shows "map snd (sorted_reverse fst (zip pred true)) =
    replicate (length (filter (\<lambda>y. y = 1) true)) 1 @
    replicate (length (filter (\<lambda>y. y = 0) true)) 0"
proof -
  let ?z = "zip pred true"
  from len have m: "map snd ?z = true" by simp
  have mono: "snd y \<le> snd x"
    if x: "x \<in> set ?z" and y: "y \<in> set ?z" and le: "fst y \<le> fst x" for x y
  proof (rule ccontr)
    assume "\<not> snd y \<le> snd x"
    then have lt: "snd x < snd y" by simp
    from x obtain i where i: "i < length true" "x = (pred ! i, true ! i)"
      using len by (auto simp: set_zip)
    from y obtain j where j: "j < length true" "y = (pred ! j, true ! j)"
      using len by (auto simp: set_zip)
    from i(1) j(1) have "true ! i \<in> set true" "true ! j \<in> set true"
      by simp_all
    with bin have "true ! i \<in> {0, 1}" "true ! j \<in> {0, 1}"
      unfolding binary_def by blast+
    with lt i j have "true ! j = 1" "true ! i = 0" by auto
    with rank i j have "pred ! i < pred ! j"
      by (simp add: perfectly_ranked_def)
    with le i j show False by simp
  qed
  have "sorted_wrt (\<lambda>x y. fst y \<le> fst x) (sorted_reverse fst ?z)"
    by (rule sorted_reverse_desc)
  then have "sorted_wrt (\<lambda>x y. snd y \<le> snd x) (sorted_reverse fst ?z)"
    by (rule sorted_wrt_mono_rel [rotated]) (simp add: set_sorted_reverse mono)
  moreover from bin m have "set (map snd ?z) \<subseteq> {0, 1}"
    by (simp add: binary_def)
  ultimately show ?thesis
    using snd_sorted_shape [of fst ?z] m by simp
qed

text \<open>
  Sorting by a key and sorting by another key that orders the elements the same way give the
  same list, since both sorts are stable.
\<close>

lemma insort_key_order_cong:
  assumes "\<And>x y. f x \<le> f y \<longleftrightarrow> g x \<le> g y"
  shows "insort_key f a xs = insort_key g a xs"
  by (induction xs) (simp_all add: assms)

lemma sort_key_order_cong:
  assumes "\<And>x y. f x \<le> f y \<longleftrightarrow> g x \<le> g y"
  shows "sort_key f xs = sort_key g xs"
  by (induction xs) (simp_all add: insort_key_order_cong [of f g, OF assms])

lemma insort_key_map:
  "insort_key f (h a) (map h xs) = map h (insort_key (\<lambda>x. f (h x)) a xs)"
  by (induction xs) simp_all

lemma sort_key_map:
  "sort_key f (map h xs) = map h (sort_key (\<lambda>x. f (h x)) xs)"
  by (induction xs) (simp_all add: insort_key_map)

lemma sorted_reverse_rescale:
  assumes "strict_mono (f :: real \<Rightarrow> real)"
  shows "map snd (sorted_reverse fst (zip (map f pred) true)) =
         map snd (sorted_reverse fst (zip pred true))"
    and "map snd (sorted_reverse snd (zip (map f pred) true)) =
         map snd (sorted_reverse snd (zip pred true))"
proof -
  let ?h = "\<lambda>(x, y). (f x, y :: real)"
  have z: "zip (map f pred) true = map ?h (zip pred true)"
    by (rule zip_map1)
  have "sort_key (\<lambda>x. - fst (?h x)) xs = sort_key (\<lambda>x. - fst x) xs" for xs
    by (rule sort_key_order_cong) (auto simp: strict_mono_less_eq [OF assms])
  then show "map snd (sorted_reverse fst (zip (map f pred) true)) =
         map snd (sorted_reverse fst (zip pred true))"
    by (simp add: sorted_reverse_def z sort_key_map split_def)
  have "sort_key (\<lambda>x. - snd (?h x)) xs = sort_key (\<lambda>x. - snd x) xs" for xs
    by (rule sort_key_order_cong) auto
  then show "map snd (sorted_reverse snd (zip (map f pred) true)) =
         map snd (sorted_reverse snd (zip pred true))"
    by (simp add: sorted_reverse_def z sort_key_map split_def)
qed

subsection \<open>The two inner iterations\<close>

lemma truesum_upto_eq:
  "truesum_upto z n =
     (if n \<le> length z then Inr (\<Sum>i<n. snd (z ! i)) else Inl IndexError)"
  by (induction n) auto

lemma truesum_upto_sum:
  "n \<le> length z \<Longrightarrow> truesum_upto z n = Inr (\<Sum>i<n. snd (z ! i))"
  by (induction n) auto

lemma truesum_upto_cong:
  assumes "map snd a = map snd b"
  shows "truesum_upto a n = truesum_upto b n"
proof -
  from assms have len: "length a = length b"
    by (metis length_map)
  have nth: "snd (a ! i) = snd (b ! i)" if "i < length b" for i
    using that assms len by (metis nth_map)
  show ?thesis
    by (induction n) (auto simp: len nth split: sum.splits)
qed

lemma dcg_upto_cong:
  assumes "map snd a = map snd b"
  shows "dcg_upto a n = dcg_upto b n"
proof -
  from assms have len: "length a = length b"
    by (metis length_map)
  have nth: "snd (a ! i) = snd (b ! i)" if "i < length b" for i
    using that assms len by (metis nth_map)
  show ?thesis
    by (induction n) (auto simp: len nth split: sum.splits)
qed

lemma truesum_snd: "n \<le> length s \<Longrightarrow> (\<Sum>i<n. snd (s ! i)) = (\<Sum>i<n. map snd s ! i)"
  by (rule sum.cong) simp_all

lemma dcg_snd:
  "n \<le> length s \<Longrightarrow>
   (\<Sum>i<n. snd (s ! i) / log 2 (real (i + 2))) = (\<Sum>i<n. map snd s ! i / log 2 (real (i + 2)))"
  by (rule sum.cong) simp_all

lemma dcg_sum_ge_first:
  assumes "0 < m" and "m \<le> length ys" and "\<forall>y \<in> set ys. 0 \<le> (y::real)"
  shows "ys ! 0 \<le> (\<Sum>i<m. ys ! i / log 2 (real (i + 2)))"
proof -
  from assms(1) obtain n where m: "m = Suc n" by (cases m) auto
  have "0 \<le> ys ! Suc i / log 2 (real (Suc i + 2))" if "i < n" for i
  proof -
    from that m assms(2) have "ys ! Suc i \<in> set ys" by simp
    with assms(3) have "0 \<le> ys ! Suc i" by blast
    then show ?thesis using log2_pos [of "Suc i"] by simp
  qed
  then have "0 \<le> (\<Sum>i<n. ys ! Suc i / log 2 (real (Suc i + 2)))"
    by (intro sum_nonneg) simp
  moreover have "(\<Sum>i<m. ys ! i / log 2 (real (i + 2))) =
      ys ! 0 / log 2 (real (0 + 2)) + (\<Sum>i<n. ys ! Suc i / log 2 (real (Suc i + 2)))"
    unfolding m by (rule sum.lessThan_Suc_shift)
  ultimately show ?thesis by simp
qed

lemma ndcg_ratio_bounds:
  assumes "1 \<le> (d::real)"
  shows "1 - 1 / 10 ^ 8 < d / (d + 1 / 10 ^ 8) \<and> d / (d + 1 / 10 ^ 8) < 1"
proof -
  have pos: "0 < d + 1 / 10 ^ 8" using assms by simp
  have "(1 - 1 / 10 ^ 8) * (d + 1 / 10 ^ 8) < d"
    using assms by (simp add: algebra_simps)
  then have "1 - 1 / 10 ^ 8 < d / (d + 1 / 10 ^ 8)"
    using pos by (simp add: pos_less_divide_eq)
  moreover have "d / (d + 1 / 10 ^ 8) < 1"
    using pos by (simp add: pos_divide_less_eq)
  ultimately show ?thesis by simp
qed

subsection \<open>One sample\<close>

lemma sample_at_k_value:
  assumes "1 \<le> k" and "nat k \<le> length pred" and "nat k \<le> length true"
  shows "sample_at_k true0 pred true k =
    Inr \<lparr>s_truesum = (\<Sum>i<nat k. snd (sorted_reverse fst (zip pred true) ! i)),
         s_pr = (\<Sum>i<nat k. snd (sorted_reverse fst (zip pred true) ! i)) / real_of_int k,
         s_rc = np_div (\<Sum>i<nat k. snd (sorted_reverse fst (zip pred true) ! i)) (sum_list true0),
         s_cg = np_div (\<Sum>i<nat k. snd (sorted_reverse fst (zip pred true) ! i) / log 2 (real (i + 2)))
                  ((\<Sum>i<nat k. snd (sorted_reverse snd (zip pred true) ! i) / log 2 (real (i + 2)))
                    + 1 / 10 ^ 8)\<rparr>"
proof -
  have "nat k \<le> length (sorted_reverse key (zip pred true))" for key :: "real \<times> real \<Rightarrow> real"
    using assms by (simp add: length_sorted_reverse)
  then show ?thesis
    using assms(1) by (simp add: sample_at_k_def Let_def dcg_at_k_def truesum_upto_sum dcg_upto_sum)
qed

lemma sample_at_k_rescale:
  assumes "strict_mono (f :: real \<Rightarrow> real)"
  shows "sample_at_k true0 (map f pred) true k = sample_at_k true0 pred true k"
  unfolding sample_at_k_def Let_def dcg_at_k_def
  by (simp only: truesum_upto_cong [OF sorted_reverse_rescale(1) [OF assms]]
      dcg_upto_cong [OF sorted_reverse_rescale(1) [OF assms]]
      dcg_upto_cong [OF sorted_reverse_rescale(2) [OF assms]])

lemma perfect_sample_precision_recall:
  assumes len: "length pred = length true" and bin: "binary true"
    and rank: "perfectly_ranked pred true"
    and k: "int (length (filter (\<lambda>y. y = 1) true)) = k" and k1: "1 \<le> k"
    and s0: "sum_list true0 = real_of_int k"
  shows "\<exists>s. sample_at_k true0 pred true k = Inr s \<and> s_pr s = 1 \<and> s_rc s = Fin 1"
proof -
  let ?a = "length (filter (\<lambda>y. y = 1) true)"
  let ?s = "sorted_reverse fst (zip pred true)"
  from k have nk: "nat k = ?a" by auto
  have a_le: "?a \<le> length true" by (rule length_filter_le)
  with len have a_le_s: "?a \<le> length ?s" by (simp add: length_sorted_reverse)
  have "(\<Sum>i<?a. snd (?s ! i)) = (\<Sum>i<?a. map snd ?s ! i)"
    using a_le_s by (rule truesum_snd)
  also have "\<dots> = (\<Sum>i<?a. 1)"
    by (rule sum.cong) (simp_all add: perfect_snd_shape [OF len bin rank] nth_append)
  also have "\<dots> = real ?a" by simp
  finally have ts: "(\<Sum>i<nat k. snd (?s ! i)) = real_of_int k"
    using nk k by simp
  from k1 have "real_of_int k \<noteq> 0" by simp
  with ts s0 show ?thesis
    using sample_at_k_value [of k pred true true0] k1 nk a_le len
    by (simp add: np_div_def)
qed

lemma perfect_sample_dcg:
  assumes len: "length pred = length true" and bin: "binary true"
    and rank: "perfectly_ranked pred true"
    and pos: "1 \<in> set true" and k1: "1 \<le> k" and kn: "nat k \<le> length true"
  shows "(\<Sum>i<nat k. snd (sorted_reverse fst (zip pred true) ! i) / log 2 (real (i + 2))) =
         (\<Sum>i<nat k. snd (sorted_reverse snd (zip pred true) ! i) / log 2 (real (i + 2)))"
    and "1 \<le> (\<Sum>i<nat k. snd (sorted_reverse snd (zip pred true) ! i) / log 2 (real (i + 2)))"
proof -
  let ?a = "length (filter (\<lambda>y. y = 1) true)"
  let ?b = "length (filter (\<lambda>y. y = 0) true)"
  let ?ys = "replicate ?a 1 @ replicate ?b (0::real)"
  let ?s = "sorted_reverse fst (zip pred true)"
  let ?o = "sorted_reverse snd (zip pred true)"
  define d where "d = (\<Sum>i<nat k. ?ys ! i / log 2 (real (i + 2)))"
  have ss: "map snd ?s = ?ys" by (rule perfect_snd_shape [OF len bin rank])
  have so: "map snd ?o = ?ys" by (rule ideal_snd_shape [OF len bin])
  from kn len have ks: "nat k \<le> length ?s" and ko: "nat k \<le> length ?o"
    by (simp_all add: length_sorted_reverse)
  have ds: "(\<Sum>i<nat k. snd (?s ! i) / log 2 (real (i + 2))) = d"
    unfolding d_def dcg_snd [OF ks] ss ..
  have do: "(\<Sum>i<nat k. snd (?o ! i) / log 2 (real (i + 2))) = d"
    unfolding d_def dcg_snd [OF ko] so ..
  from pos have "filter (\<lambda>y. y = 1) true \<noteq> []"
    by (auto simp: filter_empty_conv)
  then have a_pos: "0 < ?a" by simp
  then have first: "?ys ! 0 = 1" by (simp add: nth_append)
  have "length ?ys = length (map snd ?s)" by (simp only: ss)
  with ks have "nat k \<le> length ?ys" by simp
  moreover from k1 have "0 < nat k" by simp
  moreover have "\<forall>y \<in> set ?ys. 0 \<le> y" by auto
  ultimately have "?ys ! 0 \<le> d"
    unfolding d_def by (intro dcg_sum_ge_first)
  with first have d1: "1 \<le> d" by simp
  show "(\<Sum>i<nat k. snd (?s ! i) / log 2 (real (i + 2))) =
        (\<Sum>i<nat k. snd (?o ! i) / log 2 (real (i + 2)))"
    by (simp only: ds do)
  show "1 \<le> (\<Sum>i<nat k. snd (?o ! i) / log 2 (real (i + 2)))"
    using d1 by (simp only: do)
qed

lemma dcg_at_k_sorted:
  assumes "1 \<le> k" and "nat k \<le> length pred" and "nat k \<le> length true"
  shows "dcg_at_k (sorted_reverse key (zip pred true)) k =
    Inr (\<Sum>i<nat k. snd (sorted_reverse key (zip pred true) ! i) / log 2 (real (i + 2)))"
  using assms by (simp add: dcg_at_k_def dcg_upto_sum length_sorted_reverse)


subsection \<open>The loop over the samples\<close>

text \<open>
  An invariant that holds of the initial accumulators and is kept by the accumulation of
  every sample holds of the accumulators after the loop, and the loop raises nothing.
\<close>

lemma scores_upto_invariant:
  assumes len: "n \<le> length predvals"
    and init: "P 0 \<lparr>precision_at_k = 0, recall_at_k = Fin 0, f1score_at_k = Fin 0, ndcg_at_k = Fin 0\<rparr>"
    and step: "\<And>j acc. j < n \<Longrightarrow> P j acc \<Longrightarrow>
      \<exists>s. sample_at_k (truevals ! 0) (predvals ! j) (truevals ! j) k = Inr s \<and>
          P (Suc j) (accumulate acc s)"
  shows "\<exists>acc. scores_upto truevals predvals k n = Inr acc \<and> P n acc"
proof -
  have "m \<le> n \<Longrightarrow> \<exists>acc. scores_upto truevals predvals k m = Inr acc \<and> P m acc" for m
  proof (induction m)
    case 0
    then show ?case using init by simp
  next
    case (Suc m)
    then obtain acc where acc: "scores_upto truevals predvals k m = Inr acc" "P m acc"
      by auto
    from Suc.prems have "m < n" by simp
    from step [OF this acc(2)] obtain s where
      s: "sample_at_k (truevals ! 0) (predvals ! m) (truevals ! m) k = Inr s"
        "P (Suc m) (accumulate acc s)"
      by blast
    from \<open>m < n\<close> len have "\<not> length predvals \<le> m" by simp
    with acc s show ?case by simp
  qed
  then show ?thesis by blast
qed

lemma scores_upto_rescale:
  assumes "strict_mono (f :: real \<Rightarrow> real)"
  shows "scores_upto truevals (map (map f) predvals) k n = scores_upto truevals predvals k n"
  by (induction n) (simp_all add: sample_at_k_rescale [OF assms] split: sum.splits)

text \<open>
  The NDCG@k that \<open>scores_at_k\<close> returns, in closed form: the mean over the samples of
  the quotient of the two gains, as long as no denominator is zero.
\<close>

lemma scores_at_k_ndcg:
  fixes truevals predvals :: "real list list"
  assumes k1: "1 \<le> k" and ne: "truevals \<noteq> []"
    and len: "length truevals \<le> length predvals"
    and rows: "\<forall>j < length truevals.
        nat k \<le> length (predvals ! j) \<and> nat k \<le> length (truevals ! j)"
    and D: "D = (\<lambda>j. \<Sum>i<nat k.
        snd (sorted_reverse fst (zip (predvals ! j) (truevals ! j)) ! i) / log 2 (real (i + 2)))"
    and I: "I = (\<lambda>j. \<Sum>i<nat k.
        snd (sorted_reverse snd (zip (predvals ! j) (truevals ! j)) ! i) / log 2 (real (i + 2)))"
  shows "\<exists>r. scores_at_k truevals predvals k = Inr r \<and>
    ndcg_at_k r =
      (if \<forall>j < length truevals. I j + 1 / 10 ^ 8 \<noteq> 0
       then Fin ((\<Sum>j < length truevals. D j / (I j + 1 / 10 ^ 8)) / real (length truevals))
       else NonFinite)"
proof -
  let ?n = "length truevals"
  let ?P = "\<lambda>j (acc::scores). ndcg_at_k acc =
      (if \<forall>i < j. I i + 1 / 10 ^ 8 \<noteq> 0 then Fin (\<Sum>i < j. D i / (I i + 1 / 10 ^ 8))
       else NonFinite)"
  from ne have n0: "0 < ?n" by simp
  have "\<exists>acc. scores_upto truevals predvals k ?n = Inr acc \<and> ?P ?n acc"
  proof (rule scores_upto_invariant)
    show "?n \<le> length predvals" by (rule len)
  next
    show "?P 0 \<lparr>precision_at_k = 0, recall_at_k = Fin 0, f1score_at_k = Fin 0,
        ndcg_at_k = Fin 0\<rparr>" by simp
  next
    fix j and acc :: scores
    assume j: "j < ?n" and inv: "?P j acc"
    from rows j have kp: "nat k \<le> length (predvals ! j)"
      and kt: "nat k \<le> length (truevals ! j)" by blast+
    note val = sample_at_k_value [OF k1 kp kt, of "truevals ! 0"]
    have cg: "np_div (D j) (I j + 1 / 10 ^ 8) =
        (if I j + 1 / 10 ^ 8 \<noteq> 0 then Fin (D j / (I j + 1 / 10 ^ 8)) else NonFinite)"
      by (simp add: np_div_def)
    have all: "(\<forall>i < Suc j. I i + 1 / 10 ^ 8 \<noteq> 0) \<longleftrightarrow>
        (\<forall>i < j. I i + 1 / 10 ^ 8 \<noteq> 0) \<and> I j + 1 / 10 ^ 8 \<noteq> 0"
      by (auto simp: less_Suc_eq)
    have "?P (Suc j) (accumulate acc
        \<lparr>s_truesum = t, s_pr = p, s_rc = q, s_cg = np_div (D j) (I j + 1 / 10 ^ 8)\<rparr>)"
      for t p q
      unfolding all cg using inv by (simp add: accumulate_def)
    with val show "\<exists>s. sample_at_k (truevals ! 0) (predvals ! j) (truevals ! j) k = Inr s \<and>
        ?P (Suc j) (accumulate acc s)"
      unfolding D I by blast
  qed
  then obtain acc where "scores_upto truevals predvals k ?n = Inr acc" "?P ?n acc"
    by blast
  with n0 show ?thesis
    by (simp add: scores_at_k_def)
qed

lemma mean_bounds:
  fixes f :: "nat \<Rightarrow> real"
  assumes "0 < n" and "\<forall>j < n. a \<le> f j \<and> f j \<le> b"
  shows "a \<le> (\<Sum>j<n. f j) / real n \<and> (\<Sum>j<n. f j) / real n \<le> b"
proof -
  have "(\<Sum>j<n. f j) \<le> (\<Sum>j<n. b)"
    by (rule sum_mono) (use assms(2) in simp)
  moreover have "(\<Sum>j<n. a) \<le> (\<Sum>j<n. f j)"
    by (rule sum_mono) (use assms(2) in simp)
  ultimately show ?thesis
    using assms(1) by (simp add: pos_le_divide_eq pos_divide_le_eq mult.commute)
qed

subsection \<open>The printed report\<close>

lemma round_half_even_100:
  assumes "199 / 2 < x" and "x < 201 / 2"
  shows "round_half_even x = 100"
proof (cases "x < 100")
  case True
  with assms(1) have "\<lfloor>x\<rfloor> = 99" by linarith
  with assms(1) show ?thesis
    by (simp add: round_half_even_def Let_def)
next
  case False
  with assms(2) have "\<lfloor>x\<rfloor> = 100" by linarith
  with assms(2) show ?thesis
    by (simp add: round_half_even_def Let_def)
qed

lemma format_2f_one:
  assumes "995 / 1000 < v" and "v < 1005 / 1000"
  shows "format_2f v = ''1.00''"
proof -
  from assms have "round_half_even (100 * v) = 100"
    by (intro round_half_even_100) simp_all
  moreover from assms(1) have "\<not> v < 0" by simp
  ultimately show ?thesis
    by (simp add: format_2f_def Let_def show_nat.simps digit_def)
qed

subsection \<open>NDCG of a perfect ranking\<close>

text \<open>
  Claim C1, as the code has it. For every non-empty list of samples whose binary ground-truth
  vectors each contain at least one positive label, with one score per label, and every
  \<open>k\<close> with \<open>1 \<le> k \<le>\<close> number of labels: if every sample is perfectly ranked, then for
  every sample \<open>dcg_at_k\<close> of the pairs sorted by score is \<open>dcg_at_k\<close> of the pairs sorted
  by ground truth, a value \<open>d \<ge> 1\<close>; \<open>scores_at_k\<close> raises nothing, the NDCG@k it computes is
  the mean of the quotients \<open>d / (d + 0.00000001)\<close>, which is at most 1, and the value it
  reports, printed with two decimals, is \<open>1.00\<close>. Because of the constant that guards the
  quotient the computed value is in general not 1.
\<close>

theorem perfect_ranking_ndcg:
  assumes ne: "truevals \<noteq> []" and len: "length predvals = length truevals" and k1: "1 \<le> k"
    and samples: "\<forall>j < length truevals.
        length (predvals ! j) = length (truevals ! j) \<and> binary (truevals ! j) \<and>
        1 \<in> set (truevals ! j) \<and> nat k \<le> length (truevals ! j) \<and>
        perfectly_ranked (predvals ! j) (truevals ! j)"
  shows "\<exists>dcgs r v lines.
    length dcgs = length truevals \<and>
    (\<forall>j < length truevals.
       dcg_at_k (sorted_reverse fst (zip (predvals ! j) (truevals ! j))) k = Inr (dcgs ! j) \<and>
       dcg_at_k (sorted_reverse snd (zip (predvals ! j) (truevals ! j))) k = Inr (dcgs ! j) \<and>
       1 \<le> dcgs ! j) \<and>
    scores_at_k truevals predvals k = Inr r \<and> ndcg_at_k r = Fin v \<and>
    v = (\<Sum>j < length truevals. dcgs ! j / (dcgs ! j + 0.00000001)) / real (length truevals) \<and>
    v \<le> 1 \<and>
    scores_at_k_printed truevals predvals k = Inr lines \<and>
    lines ! 3 = Some (''NDCG@'' @ show_int k @ ''      : 1.00'')"
proof -
  let ?n = "length truevals"
  define D where "D = (\<lambda>j. \<Sum>i<nat k.
      snd (sorted_reverse fst (zip (predvals ! j) (truevals ! j)) ! i) / log 2 (real (i + 2)))"
  define I where "I = (\<lambda>j. \<Sum>i<nat k.
      snd (sorted_reverse snd (zip (predvals ! j) (truevals ! j)) ! i) / log 2 (real (i + 2)))"
  define dcgs where "dcgs = map I [0..<?n]"
  from ne have n0: "0 < ?n" by simp
  have row: "nat k \<le> length (predvals ! j)" "nat k \<le> length (truevals ! j)"
    "D j = I j" "1 \<le> I j" if "j < ?n" for j
  proof -
    from samples that have h: "length (predvals ! j) = length (truevals ! j)"
      "binary (truevals ! j)" "perfectly_ranked (predvals ! j) (truevals ! j)"
      "1 \<in> set (truevals ! j)" "1 \<le> k" "nat k \<le> length (truevals ! j)"
      using k1 by blast+
    from h(1,6) show "nat k \<le> length (predvals ! j)" "nat k \<le> length (truevals ! j)"
      by simp_all
    from perfect_sample_dcg [OF h] show "D j = I j" "1 \<le> I j"
      unfolding D_def I_def by simp_all
  qed
  have nz: "\<forall>j < ?n. I j + 1 / 10 ^ 8 \<noteq> 0"
  proof (intro allI impI)
    fix j assume "j < ?n"
    from row(4) [OF this] show "I j + 1 / 10 ^ 8 \<noteq> 0" by simp
  qed
  have "\<exists>r. scores_at_k truevals predvals k = Inr r \<and>
    ndcg_at_k r =
      (if \<forall>j < ?n. I j + 1 / 10 ^ 8 \<noteq> 0
       then Fin ((\<Sum>j < ?n. D j / (I j + 1 / 10 ^ 8)) / real ?n)
       else NonFinite)"
    by (rule scores_at_k_ndcg [OF k1 ne _ _ D_def I_def]) (use len row in auto)
  with nz obtain r where r: "scores_at_k truevals predvals k = Inr r"
    "ndcg_at_k r = Fin ((\<Sum>j < ?n. D j / (I j + 1 / 10 ^ 8)) / real ?n)"
    by auto
  define v where "v = (\<Sum>j < ?n. I j / (I j + 1 / 10 ^ 8)) / real ?n"
  have "(\<Sum>j < ?n. D j / (I j + 1 / 10 ^ 8)) = (\<Sum>j < ?n. I j / (I j + 1 / 10 ^ 8))"
    by (rule sum.cong) (simp_all add: row(3))
  with r(2) have rv: "ndcg_at_k r = Fin v" by (simp add: v_def)
  have "\<forall>j < ?n. 1 - 1 / 10 ^ 8 \<le> I j / (I j + 1 / 10 ^ 8) \<and> I j / (I j + 1 / 10 ^ 8) \<le> 1"
    using ndcg_ratio_bounds [OF row(4)] by (simp add: less_imp_le)
  from mean_bounds [OF n0 this] have vb: "1 - 1 / 10 ^ 8 \<le> v" "v \<le> 1"
    by (simp_all add: v_def)
  then have "format_2f v = ''1.00''"
    by (intro format_2f_one) simp_all
  with r(1) rv have pr: "\<exists>lines. scores_at_k_printed truevals predvals k = Inr lines \<and>
      lines ! 3 = Some (''NDCG@'' @ show_int k @ ''      : 1.00'')"
    by (simp add: scores_at_k_printed_def report_line_def format_2f_np_def)
  have len_d: "length dcgs = ?n" by (simp add: dcgs_def)
  have nth_d: "dcgs ! j = I j" if "j < ?n" for j
    using that by (simp add: dcgs_def)
  have dc: "\<forall>j < ?n.
       dcg_at_k (sorted_reverse fst (zip (predvals ! j) (truevals ! j))) k = Inr (dcgs ! j) \<and>
       dcg_at_k (sorted_reverse snd (zip (predvals ! j) (truevals ! j))) k = Inr (dcgs ! j) \<and>
       1 \<le> dcgs ! j"
  proof (intro allI impI)
    fix j assume j: "j < ?n"
    from dcg_at_k_sorted [OF k1 row(1,2) [OF j]] row(3,4) [OF j] nth_d [OF j]
    show "dcg_at_k (sorted_reverse fst (zip (predvals ! j) (truevals ! j))) k = Inr (dcgs ! j) \<and>
       dcg_at_k (sorted_reverse snd (zip (predvals ! j) (truevals ! j))) k = Inr (dcgs ! j) \<and>
       1 \<le> dcgs ! j"
      unfolding D_def I_def by simp
  qed
  have "v = (\<Sum>j < ?n. dcgs ! j / (dcgs ! j + 0.00000001)) / real ?n"
    unfolding v_def by (simp add: nth_d)
  with len_d dc r(1) rv vb(2) pr show ?thesis by blast
qed

theorem perfect_ranking_ndcg_witness:
  "perfectly_ranked [9/10, 1/10] [1, 0] \<and> perfectly_ranked [2/10, 7/10] [0, 1] \<and>
   (\<exists>r v lines. scores_at_k [[1, 0], [0, 1]] [[9/10, 1/10], [2/10, 7/10]] 1 = Inr r \<and>
      ndcg_at_k r = Fin v \<and> v \<le> 1 \<and>
      scores_at_k_printed [[1, 0], [0, 1]] [[9/10, 1/10], [2/10, 7/10]] 1 = Inr lines \<and>
      lines ! 3 = Some ''NDCG@1      : 1.00'')"
proof -
  have "\<exists>dcgs r v lines.
    length dcgs = length [[1, 0], [0, 1 :: real]] \<and>
    (\<forall>j < length [[1, 0], [0, 1 :: real]].
       dcg_at_k (sorted_reverse fst (zip ([[9/10, 1/10], [2/10, 7/10]] ! j) ([[1, 0], [0, 1]] ! j))) 1 =
         Inr (dcgs ! j) \<and>
       dcg_at_k (sorted_reverse snd (zip ([[9/10, 1/10], [2/10, 7/10]] ! j) ([[1, 0], [0, 1]] ! j))) 1 =
         Inr (dcgs ! j) \<and>
       1 \<le> dcgs ! j) \<and>
    scores_at_k [[1, 0], [0, 1]] [[9/10, 1/10], [2/10, 7/10]] 1 = Inr r \<and> ndcg_at_k r = Fin v \<and>
    v = (\<Sum>j < length [[1, 0], [0, 1 :: real]]. dcgs ! j / (dcgs ! j + 0.00000001)) /
          real (length [[1, 0], [0, 1 :: real]]) \<and>
    v \<le> 1 \<and>
    scores_at_k_printed [[1, 0], [0, 1]] [[9/10, 1/10], [2/10, 7/10]] 1 = Inr lines \<and>
    lines ! 3 = Some (''NDCG@'' @ show_int 1 @ ''      : 1.00'')"
    by (rule perfect_ranking_ndcg)
      (simp_all add: binary_def perfectly_ranked_def less_Suc_eq nth_Cons')
  then obtain r v lines where
    "scores_at_k [[1, 0], [0, 1]] [[9/10, 1/10], [2/10, 7/10]] 1 = Inr r" "ndcg_at_k r = Fin v"
    "v \<le> 1" "scores_at_k_printed [[1, 0], [0, 1]] [[9/10, 1/10], [2/10, 7/10]] 1 = Inr lines"
    "lines ! 3 = Some (''NDCG@'' @ show_int 1 @ ''      : 1.00'')"
    by blast
  moreover have "show_int 1 = ''1''"
    by (simp add: show_int_def show_nat.simps digit_def)
  moreover have "perfectly_ranked [9/10, 1/10] [1, 0] \<and> perfectly_ranked [2/10, 7/10] [0, 1]"
    by (simp add: perfectly_ranked_def less_Suc_eq nth_Cons')
  ultimately show ?thesis by auto
qed

text \<open>
  One perfectly ranked sample with one positive label, at \<open>k = 1\<close>: the NDCG@1 is
  \<open>1 / (1 + 0.00000001)\<close>, not 1.
\<close>

theorem perfect_ranking_ndcg_counterexample:
  "binary [1, 0] \<and> perfectly_ranked [9/10, 1/10] [1, 0] \<and>
   scores_at_k [[1, 0]] [[9/10, 1/10]] 1 =
     Inr \<lparr>precision_at_k = 1, recall_at_k = Fin 1, f1score_at_k = Fin 1,
          ndcg_at_k = Fin (100000000 / 100000001)\<rparr> \<and>
   Fin (100000000 / 100000001) \<noteq> Fin 1"
  by (simp add: binary_def perfectly_ranked_def less_Suc_eq nth_Cons' eval_defs)

subsection \<open>Precision and recall of a perfect ranking\<close>

text \<open>
  Claim C2, as the code has it. For every non-empty list of samples with binary
  ground-truth vectors and one score per label, if every sample is perfectly ranked and
  \<open>k\<close> is the number of true positives of every sample, and \<open>k \<ge> 1\<close>, then \<open>scores_at_k\<close>
  returns precision@k = 1 and recall@k = 1.
\<close>

theorem perfect_ranking_precision_recall:
  assumes ne: "truevals \<noteq> []" and len: "length predvals = length truevals" and k1: "1 \<le> k"
    and samples: "\<forall>j < length truevals.
        length (predvals ! j) = length (truevals ! j) \<and> binary (truevals ! j) \<and>
        perfectly_ranked (predvals ! j) (truevals ! j) \<and>
        int (length (filter (\<lambda>y. y = 1) (truevals ! j))) = k"
  shows "\<exists>r. scores_at_k truevals predvals k = Inr r \<and>
    precision_at_k r = 1 \<and> recall_at_k r = Fin 1"
proof -
  let ?n = "length truevals"
  let ?P = "\<lambda>j (acc::scores). precision_at_k acc = real j \<and> recall_at_k acc = Fin (real j)"
  from ne have n0: "0 < ?n" by simp
  with samples have "binary (truevals ! 0)"
    and "int (length (filter (\<lambda>y. y = 1) (truevals ! 0))) = k" by blast+
  then have s0: "sum_list (truevals ! 0) = real_of_int k"
    using binary_sum_list [of "truevals ! 0"] by (auto simp: binary_def)
  have "\<exists>acc. scores_upto truevals predvals k ?n = Inr acc \<and> ?P ?n acc"
  proof (rule scores_upto_invariant)
    show "?n \<le> length predvals" using len by simp
  next
    show "?P 0 \<lparr>precision_at_k = 0, recall_at_k = Fin 0, f1score_at_k = Fin 0,
        ndcg_at_k = Fin 0\<rparr>" by simp
  next
    fix j and acc :: scores
    assume j: "j < ?n" and inv: "?P j acc"
    from samples j have "length (predvals ! j) = length (truevals ! j)"
      "binary (truevals ! j)" "perfectly_ranked (predvals ! j) (truevals ! j)"
      "int (length (filter (\<lambda>y. y = 1) (truevals ! j))) = k" by blast+
    from perfect_sample_precision_recall [OF this k1 s0] obtain s where
      "sample_at_k (truevals ! 0) (predvals ! j) (truevals ! j) k = Inr s"
      "s_pr s = 1" "s_rc s = Fin 1" by blast
    with inv show "\<exists>s. sample_at_k (truevals ! 0) (predvals ! j) (truevals ! j) k = Inr s \<and>
        ?P (Suc j) (accumulate acc s)"
      by (simp add: accumulate_def)
  qed
  then obtain acc where "scores_upto truevals predvals k ?n = Inr acc" "?P ?n acc"
    by blast
  with n0 show ?thesis
    by (simp add: scores_at_k_def)
qed

theorem perfect_ranking_precision_recall_witness:
  "perfectly_ranked [9/10, 1/10] [1, 0] \<and> perfectly_ranked [2/10, 7/10] [0, 1] \<and>
   (\<exists>r. scores_at_k [[1, 0], [0, 1]] [[9/10, 1/10], [2/10, 7/10]] 1 = Inr r \<and>
      precision_at_k r = 1 \<and> recall_at_k r = Fin 1)"
proof -
  have "\<exists>r. scores_at_k [[1, 0], [0, 1]] [[9/10, 1/10], [2/10, 7/10]] 1 = Inr r \<and>
      precision_at_k r = 1 \<and> recall_at_k r = Fin 1"
    by (rule perfect_ranking_precision_recall)
      (simp_all add: binary_def perfectly_ranked_def less_Suc_eq nth_Cons')
  then show ?thesis
    by (simp add: perfectly_ranked_def less_Suc_eq nth_Cons')
qed

text \<open>
  A sample with no positive label has \<open>k = 0\<close> true positives; \<open>scores_at_k\<close> then
  raises \<open>ZeroDivisionError\<close> at \<open>truesum / k\<close>.
\<close>

theorem perfect_ranking_precision_recall_counterexample:
  "binary [0, 0] \<and> perfectly_ranked [3/10, 2/10] [0, 0] \<and>
   int (length (filter (\<lambda>y. y = 1) [0, 0 :: real])) = 0 \<and>
   scores_at_k [[0, 0]] [[3/10, 2/10]] 0 = Inl ZeroDivisionError"
  by (simp add: binary_def perfectly_ranked_def less_Suc_eq nth_Cons' eval_defs)

subsection \<open>Denominators\<close>




subsection \<open>Order-preserving rescaling of the scores\<close>

text \<open>
  Claim C4. For every list of samples, every \<open>k\<close> and every strictly increasing \<open>f\<close>,
  \<open>scores_at_k\<close> on the prediction scores mapped by \<open>f\<close> returns what it returns on the
  scores themselves: the same four values, or the same exception.
\<close>

theorem scores_at_k_rescale:
  assumes "strict_mono (f :: real \<Rightarrow> real)"
  shows "scores_at_k truevals (map (map f) predvals) k = scores_at_k truevals predvals k"
  by (simp add: scores_at_k_def scores_upto_rescale [OF assms])

theorem scores_at_k_rescale_witness:
  "strict_mono (\<lambda>x :: real. 2 * x + 1) \<and>
   scores_at_k [[1, 0], [0, 1]] (map (map (\<lambda>x. 2 * x + 1)) [[9/10, 1/10], [2/10, 7/10]]) 1 =
   scores_at_k [[1, 0], [0, 1]] [[9/10, 1/10], [2/10, 7/10]] 1"
proof -
  have m: "strict_mono (\<lambda>x :: real. 2 * x + 1)"
    by (simp add: strict_mono_def)
  from m scores_at_k_rescale [OF m] show ?thesis by blast
qed

subsection \<open>The formulas of DCG and NDCG\<close>

text \<open>
  Claim C5. For every list \<open>vals\<close> with at least \<open>k\<close> entries, \<open>dcg_at_k vals k\<close> is the
  sum over \<open>i < k\<close> of \<open>vals[i][1] / log2(i + 2)\<close>. The list \<open>sorted_reverse key z\<close> is a
  permutation of \<open>z\<close> in decreasing order of the key. For \<open>k \<ge> 1\<close> and a non-empty list of
  samples with at least \<open>k\<close> scores and labels each, \<open>scores_at_k\<close> returns as NDCG@k the
  mean over the samples of \<open>dcg_at_k\<close> of the pairs sorted in decreasing order of the
  score, divided by \<open>dcg_at_k\<close> of the pairs sorted in decreasing order of the ground truth
  plus \<open>0.00000001\<close>; where that denominator is zero for a sample, the NDCG@k is \<open>inf\<close>
  or \<open>nan\<close>.
\<close>

theorem dcg_ndcg_formula:
  "(k \<le> length vals \<longrightarrow>
      dcg_at_k vals (int k) = Inr (\<Sum>i<k. snd (vals ! i) / log 2 (real (i + 2)))) \<and>
   mset (sorted_reverse key z) = mset z \<and>
   sorted_wrt (\<lambda>x y. key x \<ge> key y) (sorted_reverse key z) \<and>
   (1 \<le> k' \<and> truevals \<noteq> [] \<and> length truevals \<le> length predvals \<and>
    (\<forall>j < length truevals.
       nat k' \<le> length (predvals ! j) \<and> nat k' \<le> length (truevals ! j)) \<longrightarrow>
    (\<exists>dcgs idcgs r.
       length dcgs = length truevals \<and> length idcgs = length truevals \<and>
       (\<forall>j < length truevals.
          dcg_at_k (sorted_reverse fst (zip (predvals ! j) (truevals ! j))) k' = Inr (dcgs ! j) \<and>
          dcg_at_k (sorted_reverse snd (zip (predvals ! j) (truevals ! j))) k' = Inr (idcgs ! j)) \<and>
       scores_at_k truevals predvals k' = Inr r \<and>
       ndcg_at_k r =
         (if \<forall>j < length truevals. idcgs ! j + 0.00000001 \<noteq> 0
          then Fin ((\<Sum>j < length truevals. dcgs ! j / (idcgs ! j + 0.00000001)) /
                 real (length truevals))
          else NonFinite)))"
proof -
  have c1: "dcg_at_k vals (int k) = Inr (\<Sum>i<k. snd (vals ! i) / log 2 (real (i + 2)))"
    if "k \<le> length vals"
    using that by (simp add: dcg_at_k_def dcg_upto_sum)
  have c4: "\<exists>dcgs idcgs r.
       length dcgs = length truevals \<and> length idcgs = length truevals \<and>
       (\<forall>j < length truevals.
          dcg_at_k (sorted_reverse fst (zip (predvals ! j) (truevals ! j))) k' = Inr (dcgs ! j) \<and>
          dcg_at_k (sorted_reverse snd (zip (predvals ! j) (truevals ! j))) k' = Inr (idcgs ! j)) \<and>
       scores_at_k truevals predvals k' = Inr r \<and>
       ndcg_at_k r =
         (if \<forall>j < length truevals. idcgs ! j + 0.00000001 \<noteq> 0
          then Fin ((\<Sum>j < length truevals. dcgs ! j / (idcgs ! j + 0.00000001)) /
                 real (length truevals))
          else NonFinite)"
    if k1: "1 \<le> k'" and ne: "truevals \<noteq> []" and len: "length truevals \<le> length predvals"
      and rows: "\<forall>j < length truevals.
        nat k' \<le> length (predvals ! j) \<and> nat k' \<le> length (truevals ! j)"
  proof -
    let ?n = "length truevals"
    define D where "D = (\<lambda>j. \<Sum>i<nat k'.
        snd (sorted_reverse fst (zip (predvals ! j) (truevals ! j)) ! i) / log 2 (real (i + 2)))"
    define I where "I = (\<lambda>j. \<Sum>i<nat k'.
        snd (sorted_reverse snd (zip (predvals ! j) (truevals ! j)) ! i) / log 2 (real (i + 2)))"
    define dcgs where "dcgs = map D [0..<?n]"
    define idcgs where "idcgs = map I [0..<?n]"
    have nth: "dcgs ! j = D j" "idcgs ! j = I j" if "j < ?n" for j
      using that by (simp_all add: dcgs_def idcgs_def)
    from scores_at_k_ndcg [OF k1 ne len rows D_def I_def] obtain r where
      r: "scores_at_k truevals predvals k' = Inr r"
        "ndcg_at_k r =
          (if \<forall>j < ?n. I j + 1 / 10 ^ 8 \<noteq> 0
           then Fin ((\<Sum>j < ?n. D j / (I j + 1 / 10 ^ 8)) / real ?n)
           else NonFinite)"
      by blast
    have "(\<forall>j < ?n. I j + 1 / 10 ^ 8 \<noteq> 0) \<longleftrightarrow> (\<forall>j < ?n. idcgs ! j + 0.00000001 \<noteq> 0)"
      by (simp add: nth)
    moreover have "(\<Sum>j < ?n. D j / (I j + 1 / 10 ^ 8)) =
        (\<Sum>j < ?n. dcgs ! j / (idcgs ! j + 0.00000001))"
      by (rule sum.cong) (simp_all add: nth)
    ultimately have nd: "ndcg_at_k r =
         (if \<forall>j < ?n. idcgs ! j + 0.00000001 \<noteq> 0
          then Fin ((\<Sum>j < ?n. dcgs ! j / (idcgs ! j + 0.00000001)) / real ?n)
          else NonFinite)"
      using r(2) by (simp only:)
    have dc: "\<forall>j < ?n.
          dcg_at_k (sorted_reverse fst (zip (predvals ! j) (truevals ! j))) k' = Inr (dcgs ! j) \<and>
          dcg_at_k (sorted_reverse snd (zip (predvals ! j) (truevals ! j))) k' = Inr (idcgs ! j)"
    proof (intro allI impI)
      fix j assume j: "j < ?n"
      from rows j have kp: "nat k' \<le> length (predvals ! j)"
        and kt: "nat k' \<le> length (truevals ! j)" by blast+
      from dcg_at_k_sorted [OF k1 kp kt, of fst] dcg_at_k_sorted [OF k1 kp kt, of snd] nth [OF j]
      show "dcg_at_k (sorted_reverse fst (zip (predvals ! j) (truevals ! j))) k' = Inr (dcgs ! j) \<and>
          dcg_at_k (sorted_reverse snd (zip (predvals ! j) (truevals ! j))) k' = Inr (idcgs ! j)"
        unfolding D_def I_def by simp
    qed
    have "length dcgs = ?n" "length idcgs = ?n"
      by (simp_all add: dcgs_def idcgs_def)
    with dc r(1) nd show ?thesis by blast
  qed
  from c1 c4 mset_sorted_reverse [of key z] sorted_reverse_desc [of key z]
  show ?thesis by blast
qed

theorem dcg_ndcg_formula_witness:
  "dcg_at_k [(9/10, 1), (1/2, 1)] 2 = Inr (1 + 1 / log 2 3) \<and>
   (\<exists>r. scores_at_k [[1, 0], [0, 1]] [[9/10, 1/10], [7/10, 2/10]] 1 = Inr r \<and>
      ndcg_at_k r = Fin ((1 / (1 + 0.00000001) + 0 / (1 + 0.00000001)) / 2))"
proof -
  let ?tv = "[[1, 0], [0, 1 :: real]]"
  let ?pv = "[[9/10, 1/10], [7/10, 2/10 :: real]]"
  note inst = dcg_ndcg_formula [of 2 "[(9/10, 1), (1/2, 1)]" fst "[]" 1 ?tv ?pv]
  from inst [THEN conjunct1] have a: "dcg_at_k [(9/10, 1), (1/2, 1)] 2 = Inr (1 + 1 / log 2 3)"
    by (simp add: lessThan_Suc numeral_2_eq_2)
  have hyp: "1 \<le> (1::int) \<and> ?tv \<noteq> [] \<and> length ?tv \<le> length ?pv \<and>
    (\<forall>j < length ?tv. nat 1 \<le> length (?pv ! j) \<and> nat 1 \<le> length (?tv ! j))"
    by (simp add: less_Suc_eq nth_Cons')
  with inst obtain dcgs idcgs r where
    d: "\<forall>j < length ?tv.
          dcg_at_k (sorted_reverse fst (zip (?pv ! j) (?tv ! j))) 1 = Inr (dcgs ! j) \<and>
          dcg_at_k (sorted_reverse snd (zip (?pv ! j) (?tv ! j))) 1 = Inr (idcgs ! j)"
    and r: "scores_at_k ?tv ?pv 1 = Inr r"
      "ndcg_at_k r =
         (if \<forall>j < length ?tv. idcgs ! j + 0.00000001 \<noteq> 0
          then Fin ((\<Sum>j < length ?tv. dcgs ! j / (idcgs ! j + 0.00000001)) / real (length ?tv))
          else NonFinite)"
    by blast
  from d have "dcgs ! 0 = 1" "idcgs ! 0 = 1" "dcgs ! 1 = 0" "idcgs ! 1 = 1"
    by (simp_all add: less_Suc_eq all_conj_distrib sorted_reverse_def dcg_at_k_def)
  with r(2) have "ndcg_at_k r = Fin ((1 / (1 + 0.00000001) + 0 / (1 + 0.00000001)) / 2)"
    by (simp add: less_Suc_eq)
  with a r(1) show ?thesis by blast
qed

subsection \<open>Recall over several samples\<close>

text \<open>
  Claim C6. The recall of every sample is \<open>truesum / np.sum(truevals[0])\<close>: the
  denominator is the number of true labels of the first sample, whichever sample is being
  scored. Two samples at \<open>k = 1\<close>, the first with one true label and the second with two,
  both with a true label ranked first: the per-sample recalls are 1 and 1/2, with mean 3/4,
  and the F1 values are 1 and 2/3, with mean 5/6; \<open>scores_at_k\<close> returns recall@1 = 1 and
  F1@1 = 1.
\<close>

theorem recall_uses_first_sample:
  "scores_at_k [[1, 0], [1, 1]] [[9/10, 1/10], [9/10, 8/10]] 1 =
     Inr \<lparr>precision_at_k = 1, recall_at_k = Fin 1, f1score_at_k = Fin 1,
          ndcg_at_k = Fin (100000000 / 100000001)\<rparr>"
  by (simp add: eval_defs)

subsection \<open>The TensorBoard set-up cell\<close>

text \<open>
  The cell ends with \<open>log = None\<close> when its \<open>try\<close> block raises \<open>ImportError\<close>, and
  with the exception when the block raises another one.
\<close>

lemma tensorboard_log_handler:
  "tensorboard_log (Inl e) = (if e = ImportError then Inr None else Inl e)"
  by (simp add: tensorboard_log_def)

end
